theory Spec2Isabelle
  imports Complex_Main
begin

section \<open>Python dictionaries with insertion order\<close>

text \<open>
  A Python \<open>dict\<close> is an association list in insertion order with pairwise distinct keys.
  Coefficients are exact rationals: the floating point rounding of Python's \<open>float\<close> is
  not part of the model.
\<close>

type_synonym ('k, 'v) pydict = "('k \<times> 'v) list"

text \<open>\<open>d[k] = v\<close> of a plain \<open>dict\<close>: overwrite in place, or append a new key.\<close>

fun dict_set :: "'k \<Rightarrow> 'v \<Rightarrow> ('k, 'v) pydict \<Rightarrow> ('k, 'v) pydict" where
  "dict_set k v [] = [(k, v)]"
| "dict_set k v ((k', v') # d) =
     (if k' = k then (k', v) # d else (k', v') # dict_set k v d)"

text \<open>A dictionary display \<open>{k1: v1, k2: v2, ...}\<close>: the entries are stored left to right.\<close>

definition dict_literal :: "('k \<times> 'v) list \<Rightarrow> ('k, 'v) pydict" where
  "dict_literal kvs = foldl (\<lambda>d (k, v). dict_set k v d) [] kvs"

text \<open>\<open>d1 == d2\<close> of two dictionaries: the same keys with the same values, in any order.\<close>

definition dict_eq :: "('k, 'v) pydict \<Rightarrow> ('k, 'v) pydict \<Rightarrow> bool" where
  "dict_eq d1 d2 \<longleftrightarrow> map_of d1 = map_of d2"

section \<open>The polynomial containers\<close>

type_synonym key = "nat list"
type_synonym poly = "(key, rat) pydict"

datatype error = InvalidKey | InvalidTermDegree | KeyNotFound

text \<open>
  What is written between the brackets of \<open>Q[...]\<close>: a tuple of indices, or a bare integer.
\<close>

datatype subscript = Tuple key | Bare nat

text \<open>
  Modelled from the spec: the classes \<open>PUBOMatrix\<close>, \<open>QUBOMatrix\<close>, \<open>IsingMatrix\<close> and
  \<open>HIsingMatrix\<close> of \<open>qubovert.utils\<close> are not among the sources. The canonical monomial
  of the BINARY algebra is the sorted sequence of the distinct labels of the raw monomial.
\<close>

definition squash_binary :: "key \<Rightarrow> key" where
  "squash_binary k = sort (remdups k)"

text \<open>
  Modelled from the spec: the canonical monomial of the SPIN algebra is the sorted sequence
  of the labels that occur an odd number of times in the raw monomial.
\<close>

definition squash_spin :: "key \<Rightarrow> key" where
  "squash_spin k = sort (filter (\<lambda>i. odd (count_list k i)) (remdups k))"

text \<open>
  Modelled from the spec: \<open>accumulate\<close> adds the value to the entry of the canonical
  monomial, creating the entry when it is absent and removing it when the sum is zero.
\<close>

fun accumulate :: "'k \<Rightarrow> rat \<Rightarrow> ('k, rat) pydict \<Rightarrow> ('k, rat) pydict" where
  "accumulate k v [] = (if v = 0 then [] else [(k, v)])"
| "accumulate k v ((k', v') # d) =
     (if k' = k then (if v' + v = 0 then d else (k', v' + v) # d)
      else (k', v') # accumulate k v d)"

text \<open>
  Modelled from the spec: a key that is not a tuple is rejected (\<open>_check_key_valid\<close>, as
  \<open>PUBO._check_key_valid\<close> of the sources does); the bounded-degree containers reject a
  canonical monomial longer than 2.
\<close>

fun PUBOMatrix_squash_key :: "subscript \<Rightarrow> error + key" where
  "PUBOMatrix_squash_key (Bare i) = Inl InvalidKey"
| "PUBOMatrix_squash_key (Tuple k) = Inr (squash_binary k)"

fun HIsingMatrix_squash_key :: "subscript \<Rightarrow> error + key" where
  "HIsingMatrix_squash_key (Bare i) = Inl InvalidKey"
| "HIsingMatrix_squash_key (Tuple k) = Inr (squash_spin k)"

fun QUBOMatrix_squash_key :: "subscript \<Rightarrow> error + key" where
  "QUBOMatrix_squash_key (Bare i) = Inl InvalidKey"
| "QUBOMatrix_squash_key (Tuple k) =
     (if length (squash_binary k) > 2 then Inl InvalidTermDegree else Inr (squash_binary k))"

fun IsingMatrix_squash_key :: "subscript \<Rightarrow> error + key" where
  "IsingMatrix_squash_key (Bare i) = Inl InvalidKey"
| "IsingMatrix_squash_key (Tuple k) =
     (if length (squash_spin k) > 2 then Inl InvalidTermDegree else Inr (squash_spin k))"

text \<open>\<open>M[k] += v\<close> on a container whose class has the given \<open>squash_key\<close>.\<close>

definition add_item ::
  "(subscript \<Rightarrow> error + key) \<Rightarrow> subscript \<Rightarrow> rat \<Rightarrow> poly \<Rightarrow> error + poly" where
  "add_item squash_key k v M =
     (case squash_key k of Inl e \<Rightarrow> Inl e | Inr k' \<Rightarrow> Inr (accumulate k' v M))"

text \<open>A sequence of statements \<open>M[k1] += v1; M[k2] += v2; ...\<close>, stopped by the first error.\<close>

fun add_items :: "(subscript \<Rightarrow> error + key) \<Rightarrow> (key \<times> rat) list \<Rightarrow> poly \<Rightarrow> error + poly" where
  "add_items squash_key [] M = Inr M"
| "add_items squash_key ((k, v) # kvs) M =
     (case add_item squash_key (Tuple k) v M of
        Inl e \<Rightarrow> Inl e
      | Inr M' \<Rightarrow> add_items squash_key kvs M')"

text \<open>A loop \<open>for x in xs: body\<close> over a state, stopped by the first error.\<close>

fun for_each :: "('x \<Rightarrow> 's \<Rightarrow> error + 's) \<Rightarrow> 'x list \<Rightarrow> 's \<Rightarrow> error + 's" where
  "for_each body [] s = Inr s"
| "for_each body (x # xs) s =
     (case body x s of Inl e \<Rightarrow> Inl e | Inr s' \<Rightarrow> for_each body xs s')"

text \<open>\<open>M += D\<close> for a dictionary \<open>D\<close>: \<open>M[k] += v\<close> for every item of \<open>D\<close>, in order.\<close>

definition iadd :: "(subscript \<Rightarrow> error + key) \<Rightarrow> poly \<Rightarrow> poly \<Rightarrow> error + poly" where
  "iadd squash_key D M = add_items squash_key D M"

section \<open>The converters of \<open>utils/_conversions.py\<close>\<close>





text \<open>The generator \<open>generate_new_key_value\<close> of \<open>pubo_to_hising\<close>, as the list it yields.\<close>

fun pubo_to_hising_generate :: "key \<Rightarrow> (key \<times> rat) list" where
  "pubo_to_hising_generate [] = [([], 1)]"
| "pubo_to_hising_generate (i # k) =
     concat (map (\<lambda>(key, val). [(i # key, val / 2), (key, val / 2)])
       (pubo_to_hising_generate k))"

definition pubo_to_hising_body :: "key \<times> rat \<Rightarrow> poly \<Rightarrow> error + poly" where
  "pubo_to_hising_body = (\<lambda>(k, v) H.
     case PUBOMatrix_squash_key (Tuple k) of
       Inl e \<Rightarrow> Inl e
     | Inr k' \<Rightarrow>
         add_items HIsingMatrix_squash_key
           (map (\<lambda>(key, val). (key, val * v)) (pubo_to_hising_generate k')) H)"

definition pubo_to_hising :: "poly \<Rightarrow> error + poly" where
  "pubo_to_hising P = for_each pubo_to_hising_body P []"

text \<open>The generator \<open>generate_new_key_value\<close> of \<open>hising_to_pubo\<close>.\<close>

fun hising_to_pubo_generate :: "key \<Rightarrow> (key \<times> rat) list" where
  "hising_to_pubo_generate [] = [([], 1)]"
| "hising_to_pubo_generate (i # k) =
     concat (map (\<lambda>(key, val). [(i # key, 2 * val), (key, - val)])
       (hising_to_pubo_generate k))"

definition hising_to_pubo_body :: "key \<times> rat \<Rightarrow> poly \<Rightarrow> error + poly" where
  "hising_to_pubo_body = (\<lambda>(k, v) P.
     case HIsingMatrix_squash_key (Tuple k) of
       Inl e \<Rightarrow> Inl e
     | Inr k' \<Rightarrow>
         add_items PUBOMatrix_squash_key
           (map (\<lambda>(key, val). (key, val * v)) (hising_to_pubo_generate k')) P)"

definition hising_to_pubo :: "poly \<Rightarrow> error + poly" where
  "hising_to_pubo H = for_each hising_to_pubo_body H []"

section \<open>Evaluation of a polynomial\<close>

text \<open>The value of a monomial and of a polynomial at an assignment of integers to indices.\<close>

definition monomial :: "(nat \<Rightarrow> int) \<Rightarrow> key \<Rightarrow> rat" where
  "monomial a k = of_int (prod_list (map a k))"

definition weighted_sum :: "('k \<Rightarrow> rat) \<Rightarrow> ('k, rat) pydict \<Rightarrow> rat" where
  "weighted_sum g d = sum_list (map (\<lambda>(k, v). v * g k) d)"

definition poly_value :: "poly \<Rightarrow> (nat \<Rightarrow> int) \<Rightarrow> rat" where
  "poly_value d a = weighted_sum (monomial a) d"

definition boolean :: "(nat \<Rightarrow> int) \<Rightarrow> bool" where
  "boolean a \<longleftrightarrow> (\<forall>i. a i = 0 \<or> a i = 1)"

section \<open>The penalty block of \<open>_pubo.py\<close>\<close>

definition constraint_xy_eq_z :: "nat \<Rightarrow> nat \<Rightarrow> nat \<Rightarrow> rat \<Rightarrow> poly" where
  "constraint_xy_eq_z x y z lam =
     dict_literal [([z], 3 * lam), ([x, y], lam), ([x, z], - 2 * lam), ([y, z], - 2 * lam)]"

section \<open>Well-formed containers\<close>

text \<open>
  The invariant of the containers: the keys of the dictionary are pairwise distinct and no
  stored coefficient is zero; every key is a canonical monomial (strictly increasing); the
  bounded-degree containers hold keys of length at most 2.
\<close>

definition no_zero_entry :: "('k, rat) pydict \<Rightarrow> bool" where
  "no_zero_entry d \<longleftrightarrow> distinct (map fst d) \<and> 0 \<notin> snd ` set d"

definition is_PUBOMatrix :: "poly \<Rightarrow> bool" where
  "is_PUBOMatrix P \<longleftrightarrow> no_zero_entry P \<and> list_all (\<lambda>(k, v). sorted_wrt (<) k) P"



section \<open>The class \<open>PUBO\<close> of \<open>_pubo.py\<close>\<close>

text \<open>
  A \<open>PUBO\<close> object: its items (monomials over arbitrary labels), the dictionaries
  \<open>_mapping\<close> (label to index) and \<open>_reverse_mapping\<close> (index to label), and the
  number of its variables.
\<close>

record 'l PUBO =
  items :: "('l list, rat) pydict"
  mapping :: "('l, nat) pydict"
  reverse_mapping :: "(nat, 'l) pydict"
  num_binary_variables :: nat

text \<open>
  Modelled from the spec: the class \<open>BO\<close> that maintains the two mappings is not among
  the sources. Labels are bound to the indices \<open>0, 1, ...\<close> in first-seen order and both
  directions are recorded; every label of a stored monomial is bound, and a stored monomial
  has no repeated label.
\<close>

definition PUBO_invariant :: "'l PUBO \<Rightarrow> bool" where
  "PUBO_invariant P \<longleftrightarrow>
     distinct (map fst (mapping P)) \<and>
     map snd (mapping P) = [0..<num_binary_variables P] \<and>
     reverse_mapping P = map (\<lambda>(l, i). (i, l)) (mapping P) \<and>
     list_all (\<lambda>(k, v). distinct k \<and> list_all (\<lambda>l. l \<in> fst ` set (mapping P)) k) (items P)"

text \<open>\<open>tuple(self._mapping[i] for i in k)\<close>: a label that is not bound raises \<open>KeyError\<close>.\<close>

fun map_labels :: "('l, nat) pydict \<Rightarrow> 'l list \<Rightarrow> error + key" where
  "map_labels m [] = Inr []"
| "map_labels m (l # ls) =
     (case map_of m l of
        None \<Rightarrow> Inl KeyNotFound
      | Some i \<Rightarrow> (case map_labels m ls of Inl e \<Rightarrow> Inl e | Inr k \<Rightarrow> Inr (i # k)))"

definition to_pubo_body :: "('l, nat) pydict \<Rightarrow> 'l list \<times> rat \<Rightarrow> poly \<Rightarrow> error + poly" where
  "to_pubo_body m = (\<lambda>(k, v) P.
     case map_labels m k of
       Inl e \<Rightarrow> Inl e
     | Inr key \<Rightarrow> add_item PUBOMatrix_squash_key (Tuple key) v P)"

definition to_pubo :: "'l PUBO \<Rightarrow> error + poly" where
  "to_pubo P = for_each (to_pubo_body (mapping P)) (items P) []"

definition default_lam :: "rat \<Rightarrow> rat" where
  "default_lam v = 1 + \<bar>v\<bar>"

text \<open>The local variables of \<open>to_qubo\<close>.\<close>

record to_qubo_state =
  qmatrix :: poly
  ancilla :: nat
  reductions :: "(key, nat) pydict"

text \<open>
  The two nested \<open>for\<close> loops that look for a pair of \<open>k\<close> that has already been reduced:
  the first pair \<open>(x, y)\<close>, \<open>x\<close> before \<open>y\<close> in \<open>k\<close>, that is a key of \<open>reductions\<close>,
  with its ancilla.
\<close>

fun find_y :: "(key, nat) pydict \<Rightarrow> nat \<Rightarrow> key \<Rightarrow> (nat \<times> nat) option" where
  "find_y red x [] = None"
| "find_y red x (y # ys) =
     (case map_of red [x, y] of Some z \<Rightarrow> Some (y, z) | None \<Rightarrow> find_y red x ys)"

fun find_reduced_pair :: "(key, nat) pydict \<Rightarrow> key \<Rightarrow> (nat \<times> nat \<times> nat) option" where
  "find_reduced_pair red [] = None"
| "find_reduced_pair red (x # k) =
     (case find_y red x k of
        Some (y, z) \<Rightarrow> Some (x, y, z)
      | None \<Rightarrow> find_reduced_pair red k)"

text \<open>
  The choice of \<open>x, y, z\<close> in the body of the \<open>while\<close> loop (where \<open>len(k) > 2\<close>): a
  pair that was found, or the first two indices of \<open>k\<close> with a new ancilla.
\<close>

definition choose_reduction ::
  "key \<Rightarrow> nat \<Rightarrow> (key, nat) pydict \<Rightarrow> (nat \<times> nat \<times> nat) \<times> nat \<times> (key, nat) pydict" where
  "choose_reduction k anc red =
     (case find_reduced_pair red k of
        Some xyz \<Rightarrow> (xyz, anc, red)
      | None \<Rightarrow> ((k ! 0, k ! 1, anc), anc + 1, dict_set [k ! 0, k ! 1] anc red))"

text \<open>The \<open>while len(k) > 2\<close> loop of \<open>to_qubo\<close>, with the weight \<open>lam(v)\<close> of the term.\<close>

function reduce_key :: "rat \<Rightarrow> key \<Rightarrow> to_qubo_state \<Rightarrow> error + (key \<times> to_qubo_state)" where
  "reduce_key w k s =
     (if 2 < length k then
        (case choose_reduction k (ancilla s) (reductions s) of
           ((x, y, z), anc', red') \<Rightarrow>
             (case iadd QUBOMatrix_squash_key (constraint_xy_eq_z x y z w) (qmatrix s) of
                Inl e \<Rightarrow> Inl e
              | Inr Q' \<Rightarrow>
                  reduce_key w (sort (filter (\<lambda>i. i \<notin> {x, y}) k @ [z]))
                    \<lparr>qmatrix = Q', ancilla = anc', reductions = red'\<rparr>))
      else Inr (k, s))"
  by pat_completeness auto
termination
proof (relation "measure (\<lambda>(w, k, s). length k)", goal_cases)
  case 1
  show ?case by simp
next
  case (2 w k s xyz rest x yz y z anc' red' Q')
  let ?red = "reductions s"
  have member: "b \<in> set ys" if "find_y ?red a ys = Some (b, c)" for a ys b c
    using that by (induction ys) (auto split: option.splits)
  have found: "length (filter (\<lambda>i. i \<notin> {a, b}) l) + 2 \<le> length l"
    if "find_reduced_pair ?red l = Some (a, b, c)" for l a b c
    using that
  proof (induction l)
    case Nil
    then show ?case by simp
  next
    case (Cons h l)
    show ?case
    proof (cases "find_y ?red h l")
      case None
      then have "find_reduced_pair ?red l = Some (a, b, c)" using Cons.prems by simp
      from Cons.IH [OF this] show ?thesis by simp
    next
      case (Some bc)
      then have h: "h = a" and "find_y ?red h l = Some (b, c)"
        using Cons.prems by (auto split: prod.splits)
      then have "b \<in> set l" using member by simp
      then have "length (filter (\<lambda>i. i \<notin> {a, b}) l) < length l"
        by (intro length_filter_less [of b]) auto
      then show ?thesis using h by simp
    qed
  qed
  have ch: "choose_reduction k (ancilla s) ?red = ((x, y, z), anc', red')"
    using 2 by simp
  have "length (filter (\<lambda>i. i \<notin> {x, y}) k) + 2 \<le> length k"
  proof (cases "find_reduced_pair ?red k")
    case (Some t)
    then show ?thesis using ch found [of k x y z] by (simp add: choose_reduction_def)
  next
    case None
    obtain a b r where k: "k = a # b # r"
      using 2(1) by (cases k; cases "tl k") auto
    have "length (filter (\<lambda>i. i \<notin> {a, b}) r) \<le> length r" by simp
    then show ?thesis using None ch by (simp add: choose_reduction_def k)
  qed
  then show ?case by simp
qed

declare reduce_key.simps [simp del]

text \<open>The body of the loop \<open>for kp, v in self.items()\<close> of \<open>to_qubo\<close>.\<close>

definition to_qubo_body ::
  "(rat \<Rightarrow> rat) \<Rightarrow> ('l, nat) pydict \<Rightarrow> 'l list \<times> rat \<Rightarrow> to_qubo_state \<Rightarrow> error + to_qubo_state" where
  "to_qubo_body lam m = (\<lambda>(kp, v) s.
     case map_labels m kp of
       Inl e \<Rightarrow> Inl e
     | Inr mapped \<Rightarrow>
        (case map_of (reductions s) (sort mapped) of
           Some z \<Rightarrow>
             (case add_item QUBOMatrix_squash_key (Bare z) v (qmatrix s) of
                Inl e \<Rightarrow> Inl e
              | Inr Q' \<Rightarrow> Inr (s\<lparr>qmatrix := Q'\<rparr>))
         | None \<Rightarrow>
             (case reduce_key (lam v) (sort mapped) s of
                Inl e \<Rightarrow> Inl e
              | Inr (k, s') \<Rightarrow>
                  (case add_item QUBOMatrix_squash_key (Tuple k) v (qmatrix s') of
                     Inl e \<Rightarrow> Inl e
                   | Inr Q' \<Rightarrow> Inr (s'\<lparr>qmatrix := Q'\<rparr>)))))"

text \<open>The state of \<open>to_qubo\<close> before its loop.\<close>

definition to_qubo_init :: "'l PUBO \<Rightarrow> to_qubo_state" where
  "to_qubo_init P = \<lparr>qmatrix = [], ancilla = num_binary_variables P, reductions = []\<rparr>"

text \<open>\<open>to_qubo\<close> up to its \<open>return\<close>, with the final values of all its local variables.\<close>

definition to_qubo_run :: "'l PUBO \<Rightarrow> (rat \<Rightarrow> rat) option \<Rightarrow> error + to_qubo_state" where
  "to_qubo_run P lam =
     for_each (to_qubo_body (case lam of None \<Rightarrow> default_lam | Some f \<Rightarrow> f) (mapping P))
       (items P) (to_qubo_init P)"

definition to_qubo :: "'l PUBO \<Rightarrow> (rat \<Rightarrow> rat) option \<Rightarrow> error + poly" where
  "to_qubo P lam = (case to_qubo_run P lam of Inl e \<Rightarrow> Inl e | Inr s \<Rightarrow> Inr (qmatrix s))"


text \<open>
  \<open>convert_solution\<close>: the solution is a dictionary, or a list (then it is defined on the
  indices below its length); a missing index or label raises.
\<close>

definition convert_solution_body ::
  "'l PUBO \<Rightarrow> (nat \<rightharpoonup> int) \<Rightarrow> nat \<Rightarrow> ('l, int) pydict \<Rightarrow> error + ('l, int) pydict" where
  "convert_solution_body P solution i res =
     (case map_of (reverse_mapping P) i of
        None \<Rightarrow> Inl KeyNotFound
      | Some l \<Rightarrow>
         (case solution i of
            None \<Rightarrow> Inl KeyNotFound
          | Some b \<Rightarrow> Inr (dict_set l (if b = 1 then 1 else 0) res)))"

definition convert_solution :: "'l PUBO \<Rightarrow> (nat \<rightharpoonup> int) \<Rightarrow> error + ('l, int) pydict" where
  "convert_solution P solution =
     for_each (convert_solution_body P solution) [0..<num_binary_variables P] []"

section \<open>The example of the documentation\<close>

text \<open>Labels are arbitrary hashable values; the example uses a string and two integers.\<close>

datatype label = Str string | Num int

text \<open>
  \<open>PUBO({('a',): 5, (0, 'a', 1): -2, (): -1.5})\<close>, with the mapping
  \<open>{'a': 0, 0: 1, 1: 2}\<close> that the documentation shows.
\<close>

definition example_pubo :: "label PUBO" where
  "example_pubo =
     \<lparr>items = [([Str ''a''], 5), ([Str ''a'', Num 0, Num 1], - 2), ([], - (3 / 2))],
      mapping = [(Str ''a'', 0), (Num 0, 1), (Num 1, 2)],
      reverse_mapping = [(0, Str ''a''), (1, Num 0), (2, Num 1)],
      num_binary_variables = 3\<rparr>"


text \<open>\<open>PUBO({(0, 1, 2): 1, (0, 1, 3): 1})\<close>: two monomials that share the pair \<open>(0, 1)\<close>.\<close>

definition shared_pair_pubo :: "nat PUBO" where
  "shared_pair_pubo =
     \<lparr>items = [([0, 1, 2], 1), ([0, 1, 3], 1)],
      mapping = [(0, 0), (1, 1), (2, 2), (3, 3)],
      reverse_mapping = [(0, 0), (1, 1), (2, 2), (3, 3)],
      num_binary_variables = 4\<rparr>"

text \<open>A solution given as a Python list: defined on the indices below its length.\<close>

definition solution_of_list :: "int list \<Rightarrow> nat \<rightharpoonup> int" where
  "solution_of_list xs = (\<lambda>i. if i < length xs then Some (xs ! i) else None)"

text \<open>
  The assignment that a list of values gives, and the lists of \<open>n\<close> boolean values that
  minimize a polynomial among all such lists.
\<close>

definition assignment_of_list :: "int list \<Rightarrow> nat \<Rightarrow> int" where
  "assignment_of_list xs = (\<lambda>i. if i < length xs then xs ! i else 0)"

definition minimizes :: "poly \<Rightarrow> int list \<Rightarrow> bool" where
  "minimizes Q xs \<longleftrightarrow>
     list_all (\<lambda>ys. poly_value Q (assignment_of_list xs) \<le> poly_value Q (assignment_of_list ys))
       (List.n_lists (length xs) [0, 1])"

section \<open>Notions used in the proofs\<close>



text \<open>The weight that selects one key: the weighted sum of a dictionary under it is the coefficient of that key.\<close>

definition delta :: "'k \<Rightarrow> 'k \<Rightarrow> rat" where
  "delta J k = (if k = J then 1 else 0)"


text \<open>The entry that \<open>convert_solution\<close> stores for a label and its index.\<close>

definition converted :: "(nat \<rightharpoonup> int) \<Rightarrow> 'l \<times> nat \<Rightarrow> 'l \<times> int" where
  "converted solution = (\<lambda>(l, i). (l, if solution i = Some 1 then 1 else 0))"

text \<open>The invariant of the registry in \<open>to_qubo\<close>: its keys are distinct sorted pairs and its ancillas are \<open>n, n + 1, ...\<close> up to the counter.\<close>

definition registry_inv :: "nat \<Rightarrow> to_qubo_state \<Rightarrow> bool" where
  "registry_inv n s \<longleftrightarrow>
     n \<le> ancilla s \<and> map snd (reductions s) = [n..<ancilla s] \<and>
     distinct (map fst (reductions s)) \<and>
     (\<forall>k\<in>fst ` set (reductions s). \<exists>x y. k = [x, y] \<and> x \<le> y)"



section \<open>Properties of the penalty block\<close>





section \<open>Sums over the items of a dictionary\<close>

lemma weighted_sum_Nil: "weighted_sum g [] = 0"
  by (simp add: weighted_sum_def)

lemma weighted_sum_Cons: "weighted_sum g ((k, v) # d) = v * g k + weighted_sum g d"
  by (simp add: weighted_sum_def)

lemma weighted_sum_append: "weighted_sum g (d @ e) = weighted_sum g d + weighted_sum g e"
  by (simp add: weighted_sum_def)

lemma weighted_sum_accumulate:
  "weighted_sum g (accumulate k v d) = weighted_sum g d + v * g k"
proof (induction d)
  case Nil
  show ?case by (simp add: weighted_sum_def)
next
  case (Cons p d)
  obtain k' v' where p: "p = (k', v')" by (cases p)
  have eq: "v' + v = 0 \<Longrightarrow> v' * g k + v * g k = 0"
    by (metis distrib_right mult_zero_left)
  show ?case using Cons eq
    by (auto simp: p weighted_sum_def algebra_simps)
qed


lemma weighted_sum_add_items:
  assumes "add_items sq kvs M = Inr M'"
    and "\<And>k v k'. (k, v) \<in> set kvs \<Longrightarrow> sq (Tuple k) = Inr k' \<Longrightarrow> g k' = h k"
  shows "weighted_sum g M' = weighted_sum g M + weighted_sum h kvs"
  using assms
proof (induction kvs arbitrary: M)
  case Nil
  then show ?case by (simp add: weighted_sum_def)
next
  case (Cons p kvs)
  obtain k v where p: "p = (k, v)" by (cases p)
  from Cons.prems(1) obtain k' where k': "sq (Tuple k) = Inr k'"
    and rest: "add_items sq kvs (accumulate k' v M) = Inr M'"
    by (auto simp: p add_item_def split: sum.splits)
  have "g k' = h k" using Cons.prems(2) [of k v k'] k' by (simp add: p)
  moreover have "weighted_sum g M' = weighted_sum g (accumulate k' v M) + weighted_sum h kvs"
    by (rule Cons.IH [OF rest]) (rule Cons.prems(2), auto)
  ultimately show ?case
    by (simp add: weighted_sum_accumulate p weighted_sum_Cons)
qed

lemma weighted_sum_for_each:
  assumes "for_each body xs s = Inr s'"
    and "\<And>k v s s'. (k, v) \<in> set xs \<Longrightarrow> body (k, v) s = Inr s' \<Longrightarrow>
           weighted_sum g s' = weighted_sum g s + v * h k"
  shows "weighted_sum g s' = weighted_sum g s + weighted_sum h xs"
  using assms
proof (induction xs arbitrary: s)
  case Nil
  then show ?case by (simp add: weighted_sum_def)
next
  case (Cons p xs)
  obtain k v where p: "p = (k, v)" by (cases p)
  from Cons.prems(1) obtain s1 where s1: "body (k, v) s = Inr s1"
    and rest: "for_each body xs s1 = Inr s'"
    by (auto simp: p split: sum.splits)
  have "weighted_sum g s1 = weighted_sum g s + v * h k"
    using Cons.prems(2) [of k v s s1] s1 by (simp add: p)
  moreover have "weighted_sum g s' = weighted_sum g s1 + weighted_sum h xs"
    by (rule Cons.IH [OF rest]) (rule Cons.prems(2), auto)
  ultimately show ?case by (simp add: p weighted_sum_Cons)
qed

lemma weighted_sum_cong:
  assumes "\<And>k v. (k, v) \<in> set d \<Longrightarrow> g k = h k"
  shows "weighted_sum g d = weighted_sum h d"
proof -
  have "map (\<lambda>(k, v). v * g k) d = map (\<lambda>(k, v). v * h k) d"
    using assms by (intro map_cong) auto
  then show ?thesis unfolding weighted_sum_def by (rule arg_cong)
qed

lemma weighted_sum_scale:
  "weighted_sum g (map (\<lambda>(k, c). (k, c * v)) d) = v * weighted_sum g d"
  by (induction d) (auto simp: weighted_sum_def algebra_simps)

lemma for_each_invariant:
  assumes "for_each body xs s = Inr s'" and "I s"
    and "\<And>x s s'. x \<in> set xs \<Longrightarrow> I s \<Longrightarrow> body x s = Inr s' \<Longrightarrow> I s'"
  shows "I s'"
  using assms
proof (induction xs arbitrary: s)
  case Nil
  then show ?case by simp
next
  case (Cons x xs)
  from Cons.prems(1) obtain s1 where s1: "body x s = Inr s1"
    and rest: "for_each body xs s1 = Inr s'"
    by (auto split: sum.splits)
  have "I s1" using Cons.prems(3) [of x s s1] Cons.prems(2) s1 by simp
  show ?case
    by (rule Cons.IH [OF rest \<open>I s1\<close>]) (rule Cons.prems(3), auto)
qed

lemma for_each_total:
  assumes "I s"
    and "\<And>x s. x \<in> set xs \<Longrightarrow> I s \<Longrightarrow> \<exists>s'. body x s = Inr s' \<and> I s'"
  shows "\<exists>s'. for_each body xs s = Inr s'"
  using assms
proof (induction xs arbitrary: s)
  case Nil
  then show ?case by simp
next
  case (Cons x xs)
  from Cons.prems(2) [of x s] Cons.prems(1) obtain s1 where s1: "body x s = Inr s1" "I s1"
    by auto
  have "\<exists>s'. for_each body xs s1 = Inr s'"
    by (rule Cons.IH [OF s1(2)]) (rule Cons.prems(2), auto)
  then show ?case using s1 by simp
qed

lemma add_items_total:
  assumes "\<And>k v. (k, v) \<in> set kvs \<Longrightarrow> \<exists>k'. sq (Tuple k) = Inr k'"
  shows "\<exists>M'. add_items sq kvs M = Inr M'"
  using assms
proof (induction kvs arbitrary: M)
  case Nil
  then show ?case by simp
next
  case (Cons p kvs)
  obtain k v where p: "p = (k, v)" by (cases p)
  from Cons.prems [of k v] obtain k' where k': "sq (Tuple k) = Inr k'" by (auto simp: p)
  have "\<exists>M'. add_items sq kvs (accumulate k' v M) = Inr M'"
    by (rule Cons.IH) (rule Cons.prems, auto)
  then show ?case by (simp add: p add_item_def k')
qed

subsection \<open>Canonical monomials\<close>



lemma squash_binary_id: "sorted_wrt (<) k \<Longrightarrow> squash_binary k = k"
  by (simp add: squash_binary_def strict_sorted_iff sorted_sort_id)

lemma count_list_distinct: "distinct k \<Longrightarrow> i \<in> set k \<Longrightarrow> count_list k i = 1"
  by (induction k) auto

lemma squash_spin_id:
  assumes "sorted_wrt (<) k"
  shows "squash_spin k = k"
proof -
  have d: "distinct k" and s: "sorted k" using assms by (simp_all add: strict_sorted_iff)
  have "filter (\<lambda>i. odd (count_list k i)) k = k"
    using d by (simp add: filter_id_conv count_list_distinct)
  then show ?thesis using s d by (simp add: squash_spin_def sorted_sort_id distinct_remdups_id)
qed


lemma length_squash_spin: "length (squash_spin k) \<le> length k"
proof -
  have "length (squash_spin k) \<le> length (remdups k)" by (simp add: squash_spin_def)
  also have "\<dots> \<le> length k" by (rule length_remdups_leq)
  finally show ?thesis .
qed

lemma length_squash_binary: "length (squash_binary k) \<le> length k"
  by (simp add: squash_binary_def length_remdups_leq)




lemma squash_spin_short [simp]:
  "squash_spin [] = []" "squash_spin [i] = [i]" "i < j \<Longrightarrow> squash_spin [i, j] = [i, j]"
  by (simp_all add: squash_spin_id)

lemma squash_binary_short [simp]:
  "squash_binary [] = []" "squash_binary [i] = [i]" "i < j \<Longrightarrow> squash_binary [i, j] = [i, j]"
  by (simp_all add: squash_binary_id)







subsection \<open>Coefficients and equality of dictionaries\<close>

lemma delta_same: "delta J J = 1"
  by (simp add: delta_def)

lemma delta_other: "k \<noteq> J \<Longrightarrow> delta J k = 0"
  by (simp add: delta_def)

lemma key_of_accumulate:
  "(a, b) \<in> set (accumulate k v d) \<Longrightarrow> a = k \<or> a \<in> fst ` set d"
  by (induction d) (force split: if_splits)+

lemma keys_accumulate: "fst ` set (accumulate k v d) \<subseteq> insert k (fst ` set d)"
  by (auto dest: key_of_accumulate)

lemma no_zero_entry_accumulate:
  assumes "no_zero_entry d"
  shows "no_zero_entry (accumulate k v d)"
  using assms
proof (induction d)
  case Nil
  then show ?case by (simp add: no_zero_entry_def)
next
  case (Cons p d)
  obtain k' v' where p: "p = (k', v')" by (cases p)
  have d: "no_zero_entry d" and k': "k' \<notin> fst ` set d" and v': "v' \<noteq> 0"
    using Cons.prems by (auto simp: no_zero_entry_def p)
  have IH: "no_zero_entry (accumulate k v d)" by (rule Cons.IH [OF d])
  show ?case
  proof (cases "k' = k")
    case True
    then show ?thesis using d k' by (auto simp: p no_zero_entry_def)
  next
    case False
    have "k' \<notin> fst ` set (accumulate k v d)"
      using keys_accumulate [of k v d] k' False by auto
    then show ?thesis using IH v' False by (auto simp: p no_zero_entry_def)
  qed
qed

lemma delta_absent: "J \<notin> fst ` set d \<Longrightarrow> weighted_sum (delta J) d = 0"
  by (induction d) (auto simp: weighted_sum_Nil weighted_sum_Cons delta_other)

lemma map_of_no_zero_entry:
  assumes "no_zero_entry d"
  shows "map_of d J =
    (if weighted_sum (delta J) d = 0 then None else Some (weighted_sum (delta J) d))"
  using assms
proof (induction d)
  case Nil
  then show ?case by (simp add: weighted_sum_Nil)
next
  case (Cons p d)
  obtain k' v' where p: "p = (k', v')" by (cases p)
  have d: "no_zero_entry d" and k': "k' \<notin> fst ` set d" and v': "v' \<noteq> 0"
    using Cons.prems by (auto simp: no_zero_entry_def p)
  show ?case
  proof (cases "k' = J")
    case True
    then have "weighted_sum (delta J) d = 0" using k' by (simp add: delta_absent)
    then show ?thesis using True v' by (simp add: p weighted_sum_Cons delta_same)
  next
    case False
    then show ?thesis using Cons.IH [OF d] by (simp add: p weighted_sum_Cons delta_other)
  qed
qed

lemma dict_eq_coefficients:
  assumes "no_zero_entry d1" and "no_zero_entry d2"
    and "\<And>J. weighted_sum (delta J) d1 = weighted_sum (delta J) d2"
  shows "dict_eq d1 d2"
  unfolding dict_eq_def
  by (rule ext) (simp add: map_of_no_zero_entry assms)

lemma no_zero_entry_add_items:
  assumes "add_items sq kvs M = Inr M'" and "no_zero_entry M"
  shows "no_zero_entry M'"
  using assms
proof (induction kvs arbitrary: M)
  case Nil
  then show ?case by simp
next
  case (Cons p kvs)
  obtain k v where p: "p = (k, v)" by (cases p)
  from Cons.prems(1) obtain k' where "add_items sq kvs (accumulate k' v M) = Inr M'"
    by (auto simp: p add_item_def split: sum.splits)
  from Cons.IH [OF this no_zero_entry_accumulate [OF Cons.prems(2)]] show ?case .
qed


lemma is_PUBOMatrix_key: "is_PUBOMatrix P \<Longrightarrow> (k, v) \<in> set P \<Longrightarrow> sorted_wrt (<) k"
  by (auto simp: is_PUBOMatrix_def list_all_iff)



lemma IsingMatrix_short: "length k \<le> 2 \<Longrightarrow> \<exists>k'. IsingMatrix_squash_key (Tuple k) = Inr k'"
  using length_squash_spin [of k] by simp

lemma QUBOMatrix_short: "length k \<le> 2 \<Longrightarrow> \<exists>k'. QUBOMatrix_squash_key (Tuple k) = Inr k'"
  using length_squash_binary [of k] by simp






section \<open>Round trip and agreement of the bounded-degree converters\<close>











section \<open>The general converters\<close>

lemma HIsingMatrix_add_items:
  assumes "add_items HIsingMatrix_squash_key kvs M = Inr M'"
  shows "weighted_sum g M' = weighted_sum g M + weighted_sum (\<lambda>k. g (squash_spin k)) kvs"
  by (rule weighted_sum_add_items [OF assms]) auto

lemma PUBOMatrix_add_items:
  assumes "add_items PUBOMatrix_squash_key kvs M = Inr M'"
  shows "weighted_sum g M' = weighted_sum g M + weighted_sum (\<lambda>k. g (squash_binary k)) kvs"
  by (rule weighted_sum_add_items [OF assms]) auto

lemma pubo_to_hising_body_sum:
  assumes "pubo_to_hising_body (k, v) H = Inr H'"
  shows "weighted_sum g H' = weighted_sum g H +
    v * weighted_sum (\<lambda>k'. g (squash_spin k')) (pubo_to_hising_generate (squash_binary k))"
proof -
  have "add_items HIsingMatrix_squash_key
      (map (\<lambda>(key, val). (key, val * v)) (pubo_to_hising_generate (squash_binary k))) H = Inr H'"
    using assms by (simp add: pubo_to_hising_body_def)
  from HIsingMatrix_add_items [OF this, of g] show ?thesis
    by (simp add: weighted_sum_scale)
qed

lemma hising_to_pubo_body_sum:
  assumes "hising_to_pubo_body (k, v) P = Inr P'"
  shows "weighted_sum g P' = weighted_sum g P +
    v * weighted_sum (\<lambda>k'. g (squash_binary k')) (hising_to_pubo_generate (squash_spin k))"
proof -
  have "add_items PUBOMatrix_squash_key
      (map (\<lambda>(key, val). (key, val * v)) (hising_to_pubo_generate (squash_spin k))) P = Inr P'"
    using assms by (simp add: hising_to_pubo_body_def)
  from PUBOMatrix_add_items [OF this, of g] show ?thesis
    by (simp add: weighted_sum_scale)
qed

lemma pubo_to_hising_sum:
  assumes "pubo_to_hising P = Inr H"
  shows "weighted_sum g H = weighted_sum (\<lambda>k. weighted_sum (\<lambda>k'. g (squash_spin k'))
      (pubo_to_hising_generate (squash_binary k))) P"
  using weighted_sum_for_each [of pubo_to_hising_body P "[]" H g
      "\<lambda>k. weighted_sum (\<lambda>k'. g (squash_spin k')) (pubo_to_hising_generate (squash_binary k))"]
    assms
  by (simp add: pubo_to_hising_def pubo_to_hising_body_sum weighted_sum_Nil)

lemma hising_to_pubo_sum:
  assumes "hising_to_pubo H = Inr P"
  shows "weighted_sum g P = weighted_sum (\<lambda>k. weighted_sum (\<lambda>k'. g (squash_binary k'))
      (hising_to_pubo_generate (squash_spin k))) H"
  using weighted_sum_for_each [of hising_to_pubo_body H "[]" P g
      "\<lambda>k. weighted_sum (\<lambda>k'. g (squash_binary k')) (hising_to_pubo_generate (squash_spin k))"]
    assms
  by (simp add: hising_to_pubo_def hising_to_pubo_body_sum weighted_sum_Nil)

lemma pubo_to_hising_total: "\<exists>H. pubo_to_hising P = Inr H"
  unfolding pubo_to_hising_def
proof (rule for_each_total [where I = "\<lambda>_. True"])
  fix x :: "key \<times> rat" and s :: poly
  have "\<exists>s'. add_items HIsingMatrix_squash_key
      (map (\<lambda>(key, val). (key, val * snd x))
        (pubo_to_hising_generate (squash_binary (fst x)))) s = Inr s'"
    by (intro add_items_total) auto
  then show "\<exists>s'. pubo_to_hising_body x s = Inr s' \<and> True"
    by (auto simp: pubo_to_hising_body_def split: prod.splits)
qed simp

lemma hising_to_pubo_total: "\<exists>P. hising_to_pubo H = Inr P"
  unfolding hising_to_pubo_def
proof (rule for_each_total [where I = "\<lambda>_. True"])
  fix x :: "key \<times> rat" and s :: poly
  have "\<exists>s'. add_items PUBOMatrix_squash_key
      (map (\<lambda>(key, val). (key, val * snd x))
        (hising_to_pubo_generate (squash_spin (fst x)))) s = Inr s'"
    by (intro add_items_total) auto
  then show "\<exists>s'. hising_to_pubo_body x s = Inr s' \<and> True"
    by (auto simp: hising_to_pubo_body_def split: prod.splits)
qed simp


lemma hising_to_pubo_no_zero_entry:
  assumes "hising_to_pubo H = Inr P"
  shows "no_zero_entry P"
proof (rule for_each_invariant [OF assms [unfolded hising_to_pubo_def]])
  show "no_zero_entry []" by (simp add: no_zero_entry_def)
next
  fix x :: "key \<times> rat" and s s' :: poly
  assume "no_zero_entry s" and "hising_to_pubo_body x s = Inr s'"
  then show "no_zero_entry s'"
    by (auto simp: hising_to_pubo_body_def split: prod.splits intro: no_zero_entry_add_items)
qed




lemma weighted_sum_linear:
  "weighted_sum (\<lambda>k. a * f k - h k) d = a * weighted_sum f d - weighted_sum h d"
  by (induction d) (auto simp: weighted_sum_def algebra_simps)

lemma weighted_sum_split_keep_drop:
  "weighted_sum F (concat (map (\<lambda>(key, val). [(i # key, p val), (key, q val)]) xs)) =
   weighted_sum (\<lambda>k. F (i # k)) (map (\<lambda>(key, val). (key, p val)) xs) +
   weighted_sum F (map (\<lambda>(key, val). (key, q val)) xs)"
  by (induction xs) (auto simp: weighted_sum_def)

lemma weighted_sum_map_times:
  "weighted_sum F (map (\<lambda>(key, val). (key, c * val)) xs) = c * weighted_sum F xs"
  by (induction xs) (auto simp: weighted_sum_def algebra_simps)

lemma weighted_sum_pubo_to_hising_generate:
  "weighted_sum F (pubo_to_hising_generate (i # k)) =
   (weighted_sum (\<lambda>k'. F (i # k')) (pubo_to_hising_generate k) +
    weighted_sum F (pubo_to_hising_generate k)) / 2"
proof -
  have "weighted_sum F (pubo_to_hising_generate (i # k)) =
      weighted_sum (\<lambda>k'. F (i # k'))
        (map (\<lambda>(key, val). (key, (1 / 2) * val)) (pubo_to_hising_generate k)) +
      weighted_sum F (map (\<lambda>(key, val). (key, (1 / 2) * val)) (pubo_to_hising_generate k))"
    using weighted_sum_split_keep_drop
      [of F i "\<lambda>val. (1 / 2) * val" "\<lambda>val. (1 / 2) * val" "pubo_to_hising_generate k"]
    by simp
  then show ?thesis by (simp only: weighted_sum_map_times) (simp add: algebra_simps)
qed

lemma weighted_sum_hising_to_pubo_generate:
  "weighted_sum F (hising_to_pubo_generate (i # k)) =
   2 * weighted_sum (\<lambda>k'. F (i # k')) (hising_to_pubo_generate k) -
   weighted_sum F (hising_to_pubo_generate k)"
proof -
  have "weighted_sum F (hising_to_pubo_generate (i # k)) =
      weighted_sum (\<lambda>k'. F (i # k'))
        (map (\<lambda>(key, val). (key, 2 * val)) (hising_to_pubo_generate k)) +
      weighted_sum F (map (\<lambda>(key, val). (key, (- 1) * val)) (hising_to_pubo_generate k))"
    using weighted_sum_split_keep_drop
      [of F i "\<lambda>val. 2 * val" "\<lambda>val. (- 1) * val" "hising_to_pubo_generate k"]
    by simp
  then show ?thesis by (simp only: weighted_sum_map_times)
qed

lemma generate_round_trip:
  "weighted_sum (\<lambda>key. weighted_sum g (hising_to_pubo_generate key))
     (pubo_to_hising_generate k) = g k"
proof (induction k arbitrary: g)
  case Nil
  show ?case by (simp add: weighted_sum_Cons weighted_sum_Nil)
next
  case (Cons i k)
  define F where "F = (\<lambda>key. weighted_sum g (hising_to_pubo_generate key))"
  define A where "A = (\<lambda>key. weighted_sum (\<lambda>k'. g (i # k')) (hising_to_pubo_generate key))"
  have "weighted_sum (\<lambda>k'. F (i # k')) (pubo_to_hising_generate k) =
      weighted_sum (\<lambda>k'. 2 * A k' - F k') (pubo_to_hising_generate k)"
    by (simp add: F_def A_def weighted_sum_hising_to_pubo_generate
        del: hising_to_pubo_generate.simps)
  also have "\<dots> = 2 * weighted_sum A (pubo_to_hising_generate k) -
      weighted_sum F (pubo_to_hising_generate k)"
    by (rule weighted_sum_linear)
  finally have "weighted_sum F (pubo_to_hising_generate (i # k)) =
      weighted_sum A (pubo_to_hising_generate k)"
    by (simp add: weighted_sum_pubo_to_hising_generate del: pubo_to_hising_generate.simps)
  also have "\<dots> = g (i # k)"
    unfolding A_def by (rule Cons.IH [of "\<lambda>k'. g (i # k')"])
  finally show ?case by (simp only: F_def)
qed

lemma pubo_to_hising_generate_keys:
  assumes "(key, val) \<in> set (pubo_to_hising_generate k)"
  shows "set key \<subseteq> set k \<and> (sorted_wrt (<) k \<longrightarrow> sorted_wrt (<) key)"
  using assms by (induction k arbitrary: key val) (auto, blast+)

lemma hising_to_pubo_generate_keys:
  assumes "(key, val) \<in> set (hising_to_pubo_generate k)"
  shows "set key \<subseteq> set k \<and> (sorted_wrt (<) k \<longrightarrow> sorted_wrt (<) key)"
  using assms by (induction k arbitrary: key val) (auto, blast+)

lemma generate_round_trip_squashed:
  assumes "sorted_wrt (<) k"
  shows "weighted_sum
      (\<lambda>k'. weighted_sum (\<lambda>k''. g (squash_binary k''))
        (hising_to_pubo_generate (squash_spin (squash_spin k'))))
      (pubo_to_hising_generate (squash_binary k)) = g k"
proof -
  have "weighted_sum
      (\<lambda>k'. weighted_sum (\<lambda>k''. g (squash_binary k''))
        (hising_to_pubo_generate (squash_spin (squash_spin k'))))
      (pubo_to_hising_generate k) =
    weighted_sum (\<lambda>k'. weighted_sum g (hising_to_pubo_generate k'))
      (pubo_to_hising_generate k)"
  proof (rule weighted_sum_cong)
    fix k' v assume "(k', v) \<in> set (pubo_to_hising_generate k)"
    then have k': "sorted_wrt (<) k'"
      using pubo_to_hising_generate_keys assms by blast
    have "weighted_sum (\<lambda>k''. g (squash_binary k'')) (hising_to_pubo_generate k') =
        weighted_sum g (hising_to_pubo_generate k')"
    proof (rule weighted_sum_cong)
      fix k'' w assume "(k'', w) \<in> set (hising_to_pubo_generate k')"
      then have "sorted_wrt (<) k''"
        using hising_to_pubo_generate_keys k' by blast
      then show "g (squash_binary k'') = g k''" by (simp add: squash_binary_id)
    qed
    then show "weighted_sum (\<lambda>k''. g (squash_binary k''))
        (hising_to_pubo_generate (squash_spin (squash_spin k'))) =
        weighted_sum g (hising_to_pubo_generate k')"
      by (simp add: squash_spin_id k')
  qed
  then show ?thesis by (simp add: squash_binary_id assms generate_round_trip)
qed

text \<open>
  C6. For every binary polynomial \<open>P\<close> of any degree over integer indices (a
  \<open>PUBOMatrix\<close>), \<open>hising_to_pubo(pubo_to_hising(P)) == P\<close>, in exact arithmetic.
\<close>

theorem hising_to_pubo_pubo_to_hising:
  assumes "is_PUBOMatrix P"
  shows "\<exists>H P'. pubo_to_hising P = Inr H \<and> hising_to_pubo H = Inr P' \<and> dict_eq P' P"
proof -
  from pubo_to_hising_total obtain H where H: "pubo_to_hising P = Inr H" ..
  from hising_to_pubo_total obtain P' where P': "hising_to_pubo H = Inr P'" ..
  have "dict_eq P' P"
  proof (rule dict_eq_coefficients)
    show "no_zero_entry P'" by (rule hising_to_pubo_no_zero_entry [OF P'])
    show "no_zero_entry P" using assms by (simp add: is_PUBOMatrix_def)
    fix J
    have "weighted_sum (delta J) P' =
        weighted_sum (\<lambda>k. weighted_sum (\<lambda>k'. delta J (squash_binary k'))
          (hising_to_pubo_generate (squash_spin k))) H"
      by (rule hising_to_pubo_sum [OF P'])
    also have "\<dots> = weighted_sum (\<lambda>k. weighted_sum
        (\<lambda>k'. weighted_sum (\<lambda>k''. delta J (squash_binary k''))
          (hising_to_pubo_generate (squash_spin (squash_spin k'))))
        (pubo_to_hising_generate (squash_binary k))) P"
      by (rule pubo_to_hising_sum [OF H])
    also have "\<dots> = weighted_sum (delta J) P"
    proof (rule weighted_sum_cong)
      fix k v assume "(k, v) \<in> set P"
      from is_PUBOMatrix_key [OF assms this]
      show "weighted_sum
          (\<lambda>k'. weighted_sum (\<lambda>k''. delta J (squash_binary k''))
            (hising_to_pubo_generate (squash_spin (squash_spin k'))))
          (pubo_to_hising_generate (squash_binary k)) = delta J k"
        by (rule generate_round_trip_squashed)
    qed
    finally show "weighted_sum (delta J) P' = weighted_sum (delta J) P" .
  qed
  then show ?thesis using H P' by blast
qed

theorem hising_to_pubo_pubo_to_hising_witness:
  "is_PUBOMatrix [([0, 1, 2], 2), ([1], - 3), ([], 1 / 2)] \<and>
   pubo_to_hising [([0, 1, 2], 2), ([1], - 3), ([], 1 / 2)] =
     Inr [([0, 1, 2], 1 / 4), ([1, 2], 1 / 4), ([0, 2], 1 / 4), ([2], 1 / 4),
          ([0, 1], 1 / 4), ([1], - (5 / 4)), ([0], 1 / 4), ([], - (3 / 4))] \<and>
   hising_to_pubo [([0, 1, 2], 1 / 4), ([1, 2], 1 / 4), ([0, 2], 1 / 4), ([2], 1 / 4),
          ([0, 1], 1 / 4), ([1], - (5 / 4)), ([0], 1 / 4), ([], - (3 / 4))] =
     Inr [([0, 1, 2], 2), ([1], - 3), ([], 1 / 2)] \<and>
   dict_eq ([([0, 1, 2], 2), ([1], - 3), ([], 1 / 2)] :: poly)
     [([0, 1, 2], 2), ([1], - 3), ([], 1 / 2)]"
proof -
  have q: "is_PUBOMatrix [([0, 1, 2], 2), ([1], - 3), ([], 1 / 2)]"
    by (simp add: is_PUBOMatrix_def no_zero_entry_def)
  have e: "pubo_to_hising [([0, 1, 2], 2), ([1], - 3), ([], 1 / 2)] =
     Inr [([0, 1, 2], 1 / 4), ([1, 2], 1 / 4), ([0, 2], 1 / 4), ([2], 1 / 4),
          ([0, 1], 1 / 4), ([1], - (5 / 4)), ([0], 1 / 4), ([], - (3 / 4))]"
    by code_simp
  have f: "hising_to_pubo [([0, 1, 2], 1 / 4), ([1, 2], 1 / 4), ([0, 2], 1 / 4), ([2], 1 / 4),
          ([0, 1], 1 / 4), ([1], - (5 / 4)), ([0], 1 / 4), ([], - (3 / 4))] =
     Inr [([0, 1, 2], 2), ([1], - 3), ([], 1 / 2)]"
    by code_simp
  from hising_to_pubo_pubo_to_hising [OF q] e f q show ?thesis by simp
qed

section \<open>\<open>convert_solution\<close>\<close>

lemma for_each_append:
  "for_each body (xs @ ys) s =
   (case for_each body xs s of Inl e \<Rightarrow> Inl e | Inr s' \<Rightarrow> for_each body ys s')"
  by (induction xs arbitrary: s) (auto split: sum.splits)

lemma dict_set_fresh: "k \<notin> fst ` set d \<Longrightarrow> dict_set k v d = d @ [(k, v)]"
  by (induction d) auto

lemma PUBO_invariant_mapping:
  assumes "PUBO_invariant P"
  shows "mapping P = zip (map fst (mapping P)) [0..<num_binary_variables P]"
    and "length (mapping P) = num_binary_variables P"
proof -
  have s: "map snd (mapping P) = [0..<num_binary_variables P]"
    using assms by (simp add: PUBO_invariant_def)
  then show "mapping P = zip (map fst (mapping P)) [0..<num_binary_variables P]"
    by (metis zip_map_fst_snd)
  show "length (mapping P) = num_binary_variables P"
    using s by (metis length_map length_upt minus_nat.diff_0)
qed

lemma PUBO_invariant_nth:
  assumes "PUBO_invariant P" and "i < num_binary_variables P"
  shows "mapping P ! i = (fst (mapping P ! i), i)"
proof -
  have "snd (mapping P ! i) = map snd (mapping P) ! i"
    using assms PUBO_invariant_mapping(2) [OF assms(1)] by simp
  also have "\<dots> = i" using assms by (simp add: PUBO_invariant_def)
  finally show ?thesis by (simp add: prod_eq_iff)
qed

lemma PUBO_invariant_reverse:
  assumes "PUBO_invariant P" and "i < num_binary_variables P"
  shows "map_of (reverse_mapping P) i = Some (fst (mapping P ! i))"
proof -
  let ?n = "num_binary_variables P"
  let ?ls = "map fst (mapping P)"
  have len: "length ?ls = ?n" using PUBO_invariant_mapping(2) [OF assms(1)] by simp
  have "reverse_mapping P = map (\<lambda>(l, i). (i, l)) (zip ?ls [0..<?n])"
    using assms(1) PUBO_invariant_mapping(1) [OF assms(1)] by (simp add: PUBO_invariant_def)
  also have "\<dots> = zip [0..<?n] ?ls"
    using len by (intro nth_equalityI) auto
  finally have r: "reverse_mapping P = zip [0..<?n] ?ls" .
  have "map_of (zip [0..<?n] ?ls) ([0..<?n] ! i) = Some (?ls ! i)"
    by (rule map_of_zip_nth) (use len assms(2) in auto)
  moreover have "[0..<?n] ! i = i" using assms(2) by simp
  moreover have "?ls ! i = fst (mapping P ! i)" using assms(2) len by simp
  ultimately show ?thesis by (simp only: r)
qed

lemma convert_solution_prefix:
  assumes "PUBO_invariant P" and "\<forall>i<num_binary_variables P. solution i \<noteq> None"
    and "m \<le> num_binary_variables P"
  shows "for_each (convert_solution_body P solution) [0..<m] [] =
    Inr (map (converted solution) (take m (mapping P)))"
  using assms(3)
proof (induction m)
  case 0
  show ?case by simp
next
  case (Suc m)
  let ?res = "map (converted solution) (take m (mapping P))"
  have m: "m < num_binary_variables P" using Suc.prems by simp
  have len: "length (mapping P) = num_binary_variables P"
    by (rule PUBO_invariant_mapping(2) [OF assms(1)])
  obtain b where b: "solution m = Some b" using assms(2) m by auto
  define l where "l = fst (mapping P ! m)"
  have nth: "mapping P ! m = (l, m)"
    using PUBO_invariant_nth [OF assms(1) m] by (simp add: l_def)
  have "distinct (map fst (mapping P))" using assms(1) by (simp add: PUBO_invariant_def)
  then have "distinct (map fst (take (Suc m) (mapping P)))"
    by (simp add: take_map [symmetric])
  then have "l \<notin> fst ` set (take m (mapping P))"
    using m len nth by (simp add: take_Suc_conv_app_nth)
  then have fresh: "l \<notin> fst ` set ?res"
    by (force simp: converted_def)
  have "convert_solution_body P solution m ?res =
      Inr (?res @ [(l, if b = 1 then 1 else 0)])"
    using PUBO_invariant_reverse [OF assms(1) m] b fresh
    by (simp add: convert_solution_body_def l_def dict_set_fresh)
  also have "?res @ [(l, if b = 1 then 1 else 0)] =
      map (converted solution) (take (Suc m) (mapping P))"
    using m len nth b by (simp add: take_Suc_conv_app_nth converted_def)
  finally show ?case
    using Suc.IH m by (simp add: for_each_append)
qed

text \<open>
  C9. For a \<open>PUBO\<close> with \<open>n\<close> variables and a solution defined at least on the indices
  below \<open>n\<close>, \<open>convert_solution\<close> returns the dictionary whose keys are the \<open>n\<close> labels,
  each with 1 if the value at its index is 1 and with 0 otherwise. The values at the
  indices from \<open>n\<close> on (the ancillas) are never read.
\<close>

theorem convert_solution_result:
  assumes "PUBO_invariant P" and "\<forall>i<num_binary_variables P. solution i \<noteq> None"
  shows "convert_solution P solution =
      Inr (map (\<lambda>(l, i). (l, if solution i = Some 1 then 1 else 0)) (mapping P)) \<and>
    (\<forall>solution'. (\<forall>i<num_binary_variables P. solution' i = solution i) \<longrightarrow>
       convert_solution P solution' = convert_solution P solution)"
proof -
  have len: "length (mapping P) = num_binary_variables P"
    by (rule PUBO_invariant_mapping(2) [OF assms(1)])
  have eq: "convert_solution P s = Inr (map (converted s) (mapping P))"
    if "\<forall>i<num_binary_variables P. s i \<noteq> None" for s
    using convert_solution_prefix [OF assms(1) that, of "num_binary_variables P"] len
    by (simp add: convert_solution_def)
  have "map (converted s) (mapping P) = map (converted solution) (mapping P)"
    if "\<forall>i<num_binary_variables P. s i = solution i" for s
  proof (rule nth_equalityI)
    fix i assume "i < length (map (converted s) (mapping P))"
    then have i: "i < num_binary_variables P" using len by simp
    then show "map (converted s) (mapping P) ! i = map (converted solution) (mapping P) ! i"
      using PUBO_invariant_nth [OF assms(1) i] that len i
      by (cases "mapping P ! i") (simp add: converted_def)
  qed simp
  note same = this
  have first: "convert_solution P solution =
      Inr (map (\<lambda>(l, i). (l, if solution i = Some 1 then 1 else 0)) (mapping P))"
    using eq [OF assms(2)] by (simp add: converted_def)
  have "convert_solution P s = convert_solution P solution"
    if s: "\<forall>i<num_binary_variables P. s i = solution i" for s
  proof -
    have "\<forall>i<num_binary_variables P. s i \<noteq> None" using s assms(2) by simp
    from eq [OF this] eq [OF assms(2)] same [OF s] show ?thesis by simp
  qed
  with first show ?thesis by blast
qed

theorem convert_solution_result_witness:
  "PUBO_invariant example_pubo \<and>
   convert_solution example_pubo (solution_of_list [1, - 1, 1, 0]) =
     Inr [(Str ''a'', 1), (Num 0, 0), (Num 1, 1)] \<and>
   convert_solution example_pubo (solution_of_list [1, - 1, 1, 1]) =
     convert_solution example_pubo (solution_of_list [1, - 1, 1, 0])"
proof -
  have inv: "PUBO_invariant example_pubo"
    by (simp add: PUBO_invariant_def example_pubo_def upt_conv_Cons)
  have d: "\<forall>i<num_binary_variables example_pubo. solution_of_list [1, - 1, 1, 0] i \<noteq> None"
    by (simp add: example_pubo_def solution_of_list_def)
  have s: "\<forall>i<num_binary_variables example_pubo.
      solution_of_list [1, - 1, 1, 1] i = solution_of_list [1, - 1, 1, 0] i"
    by (auto simp: example_pubo_def solution_of_list_def nth_Cons split: nat.splits)
  from convert_solution_result [OF inv d] s inv show ?thesis
    by (simp add: example_pubo_def solution_of_list_def)
qed

section \<open>The registry of reductions in \<open>to_qubo\<close>\<close>

lemma find_y_Some:
  "find_y red x ys = Some (y, z) \<Longrightarrow> y \<in> set ys \<and> map_of red [x, y] = Some z"
  by (induction ys) (auto split: option.splits)

lemma find_y_None: "find_y red x ys = None \<Longrightarrow> y \<in> set ys \<Longrightarrow> map_of red [x, y] = None"
  by (induction ys) (auto split: option.splits)

lemma find_reduced_pair_Some:
  "find_reduced_pair red k = Some (x, y, z) \<Longrightarrow>
   map_of red [x, y] = Some z \<and> (\<exists>pre post. k = pre @ x # post \<and> y \<in> set post)"
proof (induction k)
  case Nil
  then show ?case by simp
next
  case (Cons a k)
  show ?case
  proof (cases "find_y red a k")
    case None
    then have "find_reduced_pair red k = Some (x, y, z)" using Cons.prems by simp
    from Cons.IH [OF this] obtain pre post where "map_of red [x, y] = Some z"
      "k = pre @ x # post" "y \<in> set post" by blast
    then have "a # k = (a # pre) @ x # post" by simp
    then show ?thesis using \<open>map_of red [x, y] = Some z\<close> \<open>y \<in> set post\<close> by blast
  next
    case (Some yz)
    then have "a = x" and "find_y red x k = Some (y, z)"
      using Cons.prems by (auto split: prod.splits)
    then have "map_of red [x, y] = Some z" "y \<in> set k" "a # k = [] @ x # k"
      using find_y_Some by auto
    then show ?thesis by blast
  qed
qed

lemma find_reduced_pair_None:
  "find_reduced_pair red (a # b # r) = None \<Longrightarrow> map_of red [a, b] = None"
  by (auto split: option.splits prod.splits)

text \<open>What \<open>choose_reduction\<close> returns, in its two cases.\<close>

lemma choose_reduction_cases:
  assumes "2 < length k" and "choose_reduction k anc red = ((x, y, z), anc', red')"
  obtains (found) "map_of red [x, y] = Some z" and "anc' = anc" and "red' = red"
      and "\<exists>pre post. k = pre @ x # post \<and> y \<in> set post"
    | (minted) r where "k = x # y # r" and "z = anc" and "anc' = anc + 1"
      and "red' = red @ [([x, y], anc)]" and "map_of red [x, y] = None"
proof (cases "find_reduced_pair red k")
  case (Some xyz)
  then have "find_reduced_pair red k = Some (x, y, z)" "anc' = anc" "red' = red"
    using assms(2) by (simp_all add: choose_reduction_def)
  then show ?thesis using find_reduced_pair_Some [of red k x y z] found by blast
next
  case None
  obtain a b r where k: "k = a # b # r"
    using assms(1) by (cases k; cases "tl k") auto
  have fresh: "map_of red [a, b] = None" using None find_reduced_pair_None k by simp
  then have "[a, b] \<notin> fst ` set red" by (simp add: map_of_eq_None_iff)
  then have app: "dict_set [a, b] anc red = red @ [([a, b], anc)]" by (rule dict_set_fresh)
  have "choose_reduction k anc red =
      ((k ! 0, k ! 1, anc), anc + 1, dict_set [k ! 0, k ! 1] anc red)"
    by (simp add: choose_reduction_def None)
  also have "\<dots> = ((a, b, anc), anc + 1, red @ [([a, b], anc)])"
    by (simp add: k app)
  finally have "x = a" "y = b" "z = anc" "anc' = anc + 1" "red' = red @ [([a, b], anc)]"
    using assms(2) by auto
  then show ?thesis using k fresh by (intro minted [of r]) simp_all
qed

lemma sorted_split_le:
  assumes "sorted k" and "k = pre @ x # post" and "y \<in> set post"
  shows "x \<le> (y::nat)"
  using assms by (auto simp: sorted_append)

lemma reduce_key_registry:
  assumes "reduce_key w k s = Inr (k', s')" and "sorted k" and "registry_inv n s"
  shows "registry_inv n s' \<and> (\<exists>new. reductions s' = reductions s @ new) \<and>
    sorted k' \<and> length k' \<le> 2"
  using assms
proof (induction w k s rule: reduce_key.induct)
  case (1 w k s)
  show ?case
  proof (cases "2 < length k")
    case False
    then show ?thesis using "1.prems" by (simp add: reduce_key.simps [of w k s])
  next
    case True
    obtain x y z anc' red' where ch:
      "choose_reduction k (ancilla s) (reductions s) = ((x, y, z), anc', red')"
      by (metis prod_cases3)
    from "1.prems"(1) True ch obtain Q' where
      Q': "iadd QUBOMatrix_squash_key (constraint_xy_eq_z x y z w) (qmatrix s) = Inr Q'"
      and rec: "reduce_key w (sort (filter (\<lambda>i. i \<notin> {x, y}) k @ [z]))
        \<lparr>qmatrix = Q', ancilla = anc', reductions = red'\<rparr> = Inr (k', s')"
      by (auto simp: reduce_key.simps [of w k s] split: sum.splits)
    let ?s1 = "\<lparr>qmatrix = Q', ancilla = anc', reductions = red'\<rparr>"
    have inv1: "registry_inv n ?s1 \<and> (\<exists>new. red' = reductions s @ new)"
      using True ch
    proof (cases rule: choose_reduction_cases)
      case found
      then show ?thesis using "1.prems"(3) by (simp add: registry_inv_def)
    next
      case (minted r)
      have "x \<le> y" using "1.prems"(2) minted(1) by simp
      then show ?thesis using "1.prems"(3) minted
        by (auto simp: registry_inv_def map_of_eq_None_iff)
    qed
    have "sorted (sort (filter (\<lambda>i. i \<notin> {x, y}) k @ [z]))" by simp
    moreover have "registry_inv n ?s1" using inv1 by simp
    ultimately have "registry_inv n s' \<and> (\<exists>new. reductions s' = reductions ?s1 @ new) \<and>
        sorted k' \<and> length k' \<le> 2"
      by (rule "1.IH" [OF True ch [symmetric] refl refl refl Q' rec])
    then show ?thesis using inv1 by auto
  qed
qed

lemma to_qubo_body_cases:
  assumes "to_qubo_body lam m (kp, v) s = Inr s'"
  obtains mapped k s1 where "map_labels m kp = Inr mapped"
    and "map_of (reductions s) (sort mapped) = None"
    and "reduce_key (lam v) (sort mapped) s = Inr (k, s1)"
    and "s' = s1\<lparr>qmatrix := accumulate (squash_binary k) v (qmatrix s1)\<rparr>"
    and "length (squash_binary k) \<le> 2"
  using assms unfolding to_qubo_body_def
  by (auto simp: add_item_def split: sum.splits option.splits prod.splits if_splits)

lemma to_qubo_body_registry:
  assumes "to_qubo_body lam m (kp, v) s = Inr s'" and "registry_inv n s"
  shows "registry_inv n s' \<and> (\<exists>new. reductions s' = reductions s @ new)"
  using assms(1)
proof (cases rule: to_qubo_body_cases)
  case (1 mapped k s1)
  from reduce_key_registry [OF 1(3) _ assms(2)]
  have "registry_inv n s1 \<and> (\<exists>new. reductions s1 = reductions s @ new)" by simp
  then show ?thesis using 1(4) by (simp add: registry_inv_def)
qed



lemma registry_inv_init: "registry_inv (num_binary_variables P) (to_qubo_init P)"
  by (simp add: registry_inv_def to_qubo_init_def)



lemma shared_pair_first_term:
  "for_each (to_qubo_body default_lam (mapping shared_pair_pubo)) [([0, 1, 2], 1)]
     (to_qubo_init shared_pair_pubo) =
     Inr \<lparr>qmatrix = [([4], 6), ([0, 1], 2), ([0, 4], - 4), ([1, 4], - 4), ([2, 4], 1)],
          ancilla = 5, reductions = [([0, 1], 4)]\<rparr>"
  by code_simp


section \<open>Terms of degree at most 2 in \<open>to_qubo\<close>\<close>





section \<open>\<open>to_qubo\<close> preserves the value\<close>












lemma map_labels_list_all2:
  "map_labels m kp = Inr mapped \<Longrightarrow> list_all2 (\<lambda>l i. map_of m l = Some i) kp mapped"
  by (induction kp arbitrary: mapped) (auto split: option.splits sum.splits)

lemma map_labels_total:
  "\<forall>l\<in>set kp. l \<in> fst ` set m \<Longrightarrow> \<exists>mapped. map_labels m kp = Inr mapped"
proof (induction kp)
  case Nil
  show ?case by simp
next
  case (Cons l kp)
  then obtain mapped where "map_labels m kp = Inr mapped" by auto
  moreover obtain i where "map_of m l = Some i"
    using Cons.prems by (cases "map_of m l") (auto simp: map_of_eq_None_iff)
  ultimately show ?case by simp
qed

lemma list_all2_distinct:
  assumes "list_all2 R xs ys" and "distinct xs"
    and "\<And>x x' y. R x y \<Longrightarrow> R x' y \<Longrightarrow> x = x'"
  shows "distinct ys"
  using assms(1,2)
proof (induction rule: list_all2_induct)
  case Nil
  show ?case by simp
next
  case (Cons x xs y ys)
  have "y \<notin> set ys"
  proof
    assume "y \<in> set ys"
    then obtain j where j: "j < length ys" "ys ! j = y" by (auto simp: in_set_conv_nth)
    then have "R (xs ! j) y" and "xs ! j \<in> set xs"
      using Cons.hyps(2) by (auto simp: list_all2_conv_all_nth)
    then show False using assms(3) [OF Cons.hyps(1)] Cons.prems by auto
  qed
  then show ?case using Cons by simp
qed

lemma PUBO_invariant_item:
  assumes "PUBO_invariant P" and "(kp, v) \<in> set (items P)"
  shows "\<exists>mapped. map_labels (mapping P) kp = Inr mapped \<and> distinct mapped \<and>
    (\<forall>i\<in>set mapped. i < num_binary_variables P)"
proof -
  let ?m = "mapping P"
  have snd: "map snd ?m = [0..<num_binary_variables P]"
    using assms(1) by (simp add: PUBO_invariant_def)
  have kp: "distinct kp" "\<forall>l\<in>set kp. l \<in> fst ` set ?m"
    using assms by (auto simp: PUBO_invariant_def list_all_iff)
  from map_labels_total [OF kp(2)] obtain mapped where
    mapped: "map_labels ?m kp = Inr mapped" ..
  note all2 = map_labels_list_all2 [OF mapped]
  have "distinct (map snd ?m)" using snd by simp
  then have inj: "inj_on snd (set ?m)" by (simp add: distinct_map)
  have "distinct mapped"
  proof (rule list_all2_distinct [OF all2 kp(1)])
    fix l l' i assume "map_of ?m l = Some i" "map_of ?m l' = Some i"
    then have "(l, i) \<in> set ?m" "(l', i) \<in> set ?m" by (auto dest: map_of_SomeD)
    from inj_onD [OF inj _ this] show "l = l'" by simp
  qed
  moreover have "i < num_binary_variables P" if "i \<in> set mapped" for i
  proof -
    from that obtain j where "j < length mapped" "mapped ! j = i"
      by (auto simp: in_set_conv_nth)
    then have "map_of ?m (kp ! j) = Some i"
      using all2 by (auto simp: list_all2_conv_all_nth)
    then have "(kp ! j, i) \<in> set ?m" by (rule map_of_SomeD)
    then have "i \<in> set (map snd ?m)" by force
    then show ?thesis by (simp only: snd set_upt) simp
  qed
  ultimately show ?thesis using mapped by blast
qed











section \<open>The example of the documentation, reduced and solved\<close>

lemma example_pubo_run_lam:
  assumes "0 < lam (- 2)"
  shows "to_qubo_run example_pubo (Some lam) =
     Inr \<lparr>qmatrix = [([0], 5), ([3], 3 * lam (- 2)), ([0, 1], lam (- 2)),
             ([0, 3], - 2 * lam (- 2)), ([1, 3], - 2 * lam (- 2)),
             ([2, 3], - 2), ([], - (3 / 2))],
          ancilla = 4, reductions = [([0, 1], 3)]\<rparr>"
  using assms
  by (simp add: to_qubo_run_def to_qubo_init_def example_pubo_def to_qubo_body_def
      reduce_key.simps choose_reduction_def iadd_def add_item_def
      constraint_xy_eq_z_def dict_literal_def)

lemma example_minimizes:
  "minimizes [([0], 5), ([3], 9), ([0, 1], 3), ([0, 3], - 6), ([1, 3], - 6),
             ([2, 3], - 2), ([], - (3 / 2))] [0, 0, 0, 0]"
  by code_simp

lemma boolean_cases: "boolean s \<Longrightarrow> s i = 0 \<or> s i = 1"
  by (simp add: boolean_def)

lemma example_qubo_value:
  "poly_value [([0], 5), ([3], 3 * w), ([0, 1], w), ([0, 3], - 2 * w), ([1, 3], - 2 * w),
       ([2, 3], - 2), ([], - (3 / 2))] t =
   5 * of_int (t 0) + 3 * w * of_int (t 3) + w * of_int (t 0) * of_int (t 1)
   - 2 * w * of_int (t 0) * of_int (t 3) - 2 * w * of_int (t 1) * of_int (t 3)
   - 2 * of_int (t 2) * of_int (t 3) - 3 / 2"
  by (simp add: poly_value_def weighted_sum_def monomial_def)

lemma example_pubo_value:
  "poly_value [([0], 5), ([0, 1, 2], - 2), ([], - (3 / 2))] t =
   5 * of_int (t 0) - 2 * of_int (t 0) * of_int (t 1) * of_int (t 2) - 3 / 2"
  by (simp add: poly_value_def weighted_sum_def monomial_def)

lemma example_qubo_first_set:
  assumes "0 < (w :: rat)" and "boolean t" and "t 0 = 1"
  shows "3 / 2 \<le> poly_value [([0], 5), ([3], 3 * w), ([0, 1], w), ([0, 3], - 2 * w),
       ([1, 3], - 2 * w), ([2, 3], - 2), ([], - (3 / 2))] t"
  unfolding example_qubo_value
  using assms(1,3) boolean_cases [OF assms(2), of 1] boolean_cases [OF assms(2), of 2]
    boolean_cases [OF assms(2), of 3]
  by auto

lemma example_pubo_lower_bound:
  assumes "boolean t"
  shows "- (3 / 2) \<le> poly_value [([0], 5), ([0, 1, 2], - 2), ([], - (3 / 2))] t"
  unfolding example_pubo_value
  using boolean_cases [OF assms, of 0] boolean_cases [OF assms, of 1]
    boolean_cases [OF assms, of 2]
  by auto

lemma example_to_pubo:
  "to_pubo example_pubo = Inr [([0], 5), ([0, 1, 2], - 2), ([], - (3 / 2))]"
  by code_simp

lemma example_convert:
  "convert_solution example_pubo (\<lambda>i. Some (s i)) =
   Inr [(Str ''a'', if s 0 = 1 then 1 else 0), (Num 0, if s 1 = 1 then 1 else 0),
        (Num 1, if s 2 = 1 then 1 else 0)]"
proof -
  have "[0..<3] = [0, 1, 2::nat]" by (simp add: upt_conv_Cons)
  then show ?thesis
    by (simp add: convert_solution_def convert_solution_body_def example_pubo_def)
qed

text \<open>
  C3, as the code has it. For \<open>P = {('a',): 5, (0, 'a', 1): -2, (): -1.5}\<close> with the
  mapping \<open>'a' \<rightarrow> 0, 0 \<rightarrow> 1, 1 \<rightarrow> 2\<close> and every weighting function with a positive weight
  for the coefficient -2: \<open>to_qubo\<close> introduces exactly one ancilla (index 3, for the pair
  \<open>(0, 1)\<close>); every boolean assignment \<open>s\<close> that minimizes the returned polynomial has
  \<open>s 0 = 0\<close>, and \<open>convert_solution\<close> returns \<open>{'a': 0, 0: s 1, 1: s 2}\<close> for it, whatever
  the value of the ancilla; that solution has the value \<open>-1.5\<close> in \<open>P\<close>, the minimum of
  \<open>P\<close> over the boolean assignments.
\<close>

theorem example_minimizer_converted:
  assumes "0 < lam (- 2)" and "to_qubo example_pubo (Some lam) = Inr Q" and "boolean s"
    and "\<forall>t. boolean t \<longrightarrow> poly_value Q s \<le> poly_value Q t"
  shows "to_qubo_run example_pubo (Some lam) =
      Inr \<lparr>qmatrix = Q, ancilla = 4, reductions = [([0, 1], 3)]\<rparr> \<and>
    convert_solution example_pubo (\<lambda>i. Some (s i)) =
      Inr [(Str ''a'', 0), (Num 0, s 1), (Num 1, s 2)] \<and>
    to_pubo example_pubo = Inr [([0], 5), ([0, 1, 2], - 2), ([], - (3 / 2))] \<and>
    poly_value [([0], 5), ([0, 1, 2], - 2), ([], - (3 / 2))] s = - (3 / 2) \<and>
    (\<forall>t. boolean t \<longrightarrow>
       - (3 / 2) \<le> poly_value [([0], 5), ([0, 1, 2], - 2), ([], - (3 / 2))] t)"
proof -
  let ?w = "lam (- 2)"
  let ?Q = "[([0], 5), ([3], 3 * ?w), ([0, 1], ?w), ([0, 3], - 2 * ?w), ([1, 3], - 2 * ?w),
       ([2, 3], - 2), ([], - (3 / 2))]"
  note run = example_pubo_run_lam [of lam, OF assms(1)]
  have Q: "Q = ?Q" using assms(2) run by (simp add: to_qubo_def)
  have zero: "boolean (\<lambda>i. 0)" by (simp add: boolean_def)
  have "poly_value ?Q (\<lambda>i. 0) = - (3 / 2)" unfolding example_qubo_value by simp
  then have le: "poly_value ?Q s \<le> - (3 / 2)"
    using assms(4) zero unfolding Q by (metis)
  have s0: "s 0 = 0"
  proof (rule ccontr)
    assume "s 0 \<noteq> 0"
    then have "s 0 = 1" using boolean_cases [OF assms(3), of 0] by simp
    from example_qubo_first_set [OF assms(1,3) this] le show False by simp
  qed
  have conv: "convert_solution example_pubo (\<lambda>i. Some (s i)) =
      Inr [(Str ''a'', 0), (Num 0, s 1), (Num 1, s 2)]"
    using s0 boolean_cases [OF assms(3), of 1] boolean_cases [OF assms(3), of 2]
    by (auto simp: example_convert)
  have val: "poly_value [([0], 5), ([0, 1, 2], - 2), ([], - (3 / 2))] s = - (3 / 2)"
    unfolding example_pubo_value using s0 by simp
  show ?thesis
    using run conv val example_to_pubo example_pubo_lower_bound
    by (simp only: Q simp_thms) (intro allI impI conjI, simp_all)
qed

theorem example_minimizer_converted_witness:
  "0 < default_lam (- 2) \<and>
   to_qubo example_pubo (Some default_lam) =
     Inr [([0], 5), ([3], 9), ([0, 1], 3), ([0, 3], - 6), ([1, 3], - 6), ([2, 3], - 2),
          ([], - (3 / 2))] \<and>
   boolean (\<lambda>i. 0) \<and>
   minimizes [([0], 5), ([3], 9), ([0, 1], 3), ([0, 3], - 6), ([1, 3], - 6), ([2, 3], - 2),
          ([], - (3 / 2))] [0, 0, 0, 0] \<and>
   convert_solution example_pubo (\<lambda>i. Some 0) =
     Inr [(Str ''a'', 0), (Num 0, 0), (Num 1, 0)]"
proof -
  let ?Q = "[([0], 5), ([3], 9), ([0, 1], 3), ([0, 3], - 6), ([1, 3], - 6), ([2, 3], - 2),
          ([], - (3 / 2))] :: poly"
  have w: "0 < default_lam (- 2)" by (simp add: default_lam_def)
  have q: "to_qubo example_pubo (Some default_lam) = Inr ?Q" by code_simp
  have b: "boolean (\<lambda>i. 0)" by (simp add: boolean_def)
  have v: "poly_value ?Q t =
      5 * of_int (t 0) + 9 * of_int (t 3) + 3 * of_int (t 0) * of_int (t 1)
      - 6 * of_int (t 0) * of_int (t 3) - 6 * of_int (t 1) * of_int (t 3)
      - 2 * of_int (t 2) * of_int (t 3) - 3 / 2" for t
    by (simp add: poly_value_def weighted_sum_def monomial_def)
  have m: "\<forall>t. boolean t \<longrightarrow> poly_value ?Q (\<lambda>i. 0) \<le> poly_value ?Q t"
  proof (intro allI impI)
    fix t assume t: "boolean t"
    show "poly_value ?Q (\<lambda>i. 0) \<le> poly_value ?Q t"
      unfolding v
      using boolean_cases [OF t, of 0] boolean_cases [OF t, of 1] boolean_cases [OF t, of 2]
        boolean_cases [OF t, of 3]
      by auto
  qed
  have l: "minimizes ?Q [0, 0, 0, 0]" by code_simp
  from example_minimizer_converted [OF w q b m] w q b l show ?thesis by simp
qed

text \<open>
  The claim C3 as stated fails. With the default weighting function, and with the weight
  100, the assignment \<open>[0, 0, 0, 0]\<close> minimizes the polynomial that \<open>to_qubo\<close> returns, and
  \<open>convert_solution\<close> returns \<open>{'a': 0, 0: 0, 1: 0}\<close> for it, not \<open>{'a': 1, 0: 1, 1: 1}\<close>;
  in \<open>P\<close> the latter has the value \<open>1.5\<close> and the former the value \<open>-1.5\<close>.
\<close>

theorem example_minimizer_counterexample:
  "to_qubo example_pubo None =
     Inr [([0], 5), ([3], 9), ([0, 1], 3), ([0, 3], - 6), ([1, 3], - 6), ([2, 3], - 2),
          ([], - (3 / 2))] \<and>
   minimizes [([0], 5), ([3], 9), ([0, 1], 3), ([0, 3], - 6), ([1, 3], - 6), ([2, 3], - 2),
          ([], - (3 / 2))] [0, 0, 0, 0] \<and>
   to_qubo example_pubo (Some (\<lambda>v. 100)) =
     Inr [([0], 5), ([3], 300), ([0, 1], 100), ([0, 3], - 200), ([1, 3], - 200),
          ([2, 3], - 2), ([], - (3 / 2))] \<and>
   minimizes [([0], 5), ([3], 300), ([0, 1], 100), ([0, 3], - 200), ([1, 3], - 200),
          ([2, 3], - 2), ([], - (3 / 2))] [0, 0, 0, 0] \<and>
   convert_solution example_pubo (solution_of_list [0, 0, 0, 0]) =
     Inr [(Str ''a'', 0), (Num 0, 0), (Num 1, 0)] \<and>
   \<not> dict_eq [(Str ''a'', 0 :: int), (Num 0, 0), (Num 1, 0)]
     [(Str ''a'', 1), (Num 0, 1), (Num 1, 1)] \<and>
   to_pubo example_pubo = Inr [([0], 5), ([0, 1, 2], - 2), ([], - (3 / 2))] \<and>
   poly_value [([0], 5), ([0, 1, 2], - 2), ([], - (3 / 2))] (assignment_of_list [1, 1, 1])
     = 3 / 2 \<and>
   poly_value [([0], 5), ([0, 1, 2], - 2), ([], - (3 / 2))] (assignment_of_list [0, 0, 0])
     = - (3 / 2)"
proof -
  have 1: "to_qubo example_pubo None =
     Inr [([0], 5), ([3], 9), ([0, 1], 3), ([0, 3], - 6), ([1, 3], - 6), ([2, 3], - 2),
          ([], - (3 / 2))]" by code_simp
  have 2: "minimizes [([0], 5), ([3], 9), ([0, 1], 3), ([0, 3], - 6), ([1, 3], - 6),
      ([2, 3], - 2), ([], - (3 / 2))] [0, 0, 0, 0]" by code_simp
  have 3: "to_qubo example_pubo (Some (\<lambda>v. 100)) =
     Inr [([0], 5), ([3], 300), ([0, 1], 100), ([0, 3], - 200), ([1, 3], - 200),
          ([2, 3], - 2), ([], - (3 / 2))]" by code_simp
  have 4: "minimizes [([0], 5), ([3], 300), ([0, 1], 100), ([0, 3], - 200), ([1, 3], - 200),
          ([2, 3], - 2), ([], - (3 / 2))] [0, 0, 0, 0]" by code_simp
  have 5: "convert_solution example_pubo (solution_of_list [0, 0, 0, 0]) =
     Inr [(Str ''a'', 0), (Num 0, 0), (Num 1, 0)]" by code_simp
  have 6: "\<not> dict_eq [(Str ''a'', 0 :: int), (Num 0, 0), (Num 1, 0)]
     [(Str ''a'', 1), (Num 0, 1), (Num 1, 1)]"
    by (auto simp: dict_eq_def fun_eq_iff)
  have 7: "to_pubo example_pubo = Inr [([0], 5), ([0, 1, 2], - 2), ([], - (3 / 2))]"
    by (rule example_to_pubo)
  have 8: "poly_value [([0], 5), ([0, 1, 2], - 2), ([], - (3 / 2))]
      (assignment_of_list [1, 1, 1]) = 3 / 2"
    by (simp add: poly_value_def weighted_sum_def monomial_def assignment_of_list_def)
  have 9: "poly_value [([0], 5), ([0, 1, 2], - 2), ([], - (3 / 2))]
      (assignment_of_list [0, 0, 0]) = - (3 / 2)"
    by (simp add: poly_value_def weighted_sum_def monomial_def assignment_of_list_def)
  from 1 2 3 4 5 6 7 8 9 show ?thesis by (intro conjI)
qed

section \<open>When \<open>to_qubo\<close> returns\<close>

lemma dict_set_keys: "fst ` set (dict_set k v d) = insert k (fst ` set d)"
proof (induction d)
  case Nil
  show ?case by simp
next
  case (Cons p d)
  obtain k' v' where p: "p = (k', v')" by (cases p)
  show ?case
  proof (cases "k' = k")
    case True
    then show ?thesis by (auto simp: p)
  next
    case False
    then have "fst ` set (dict_set k v (p # d)) = insert k' (fst ` set (dict_set k v d))"
      by (simp add: p)
    then show ?thesis unfolding Cons.IH by (auto simp: p)
  qed
qed

lemma foldl_dict_set_keys:
  "fst ` set (foldl (\<lambda>d (k, v). dict_set k v d) d kvs) = fst ` set d \<union> fst ` set kvs"
proof (induction kvs arbitrary: d)
  case Nil
  show ?case by simp
next
  case (Cons p kvs)
  obtain k v where p: "p = (k, v)" by (cases p)
  have "fst ` set (foldl (\<lambda>d (k, v). dict_set k v d) (dict_set k v d) kvs) =
      fst ` set (dict_set k v d) \<union> fst ` set kvs"
    by (rule Cons.IH)
  then show ?case unfolding dict_set_keys by (auto simp: p)
qed

lemma constraint_keys:
  assumes "(k, v) \<in> set (constraint_xy_eq_z x y z w)"
  shows "length k \<le> 2"
proof -
  have "fst ` set (constraint_xy_eq_z x y z w) =
      fst ` set [([z], 3 * w), ([x, y], w), ([x, z], - 2 * w), ([y, z], - 2 * w)]"
    by (simp only: constraint_xy_eq_z_def dict_literal_def foldl_dict_set_keys) simp
  moreover have "k \<in> fst ` set (constraint_xy_eq_z x y z w)"
    by (rule image_eqI [of _ _ "(k, v)"]) (simp_all add: assms)
  ultimately have "k \<in> fst ` set [([z], 3 * w), ([x, y], w), ([x, z], - 2 * w),
      ([y, z], - 2 * w)]"
    by (simp only:)
  then show ?thesis by auto
qed

lemma iadd_constraint_total:
  "\<exists>Q'. iadd QUBOMatrix_squash_key (constraint_xy_eq_z x y z w) Q = Inr Q'"
  unfolding iadd_def
proof (rule add_items_total)
  fix k v assume "(k, v) \<in> set (constraint_xy_eq_z x y z w)"
  then have "length k \<le> 2" by (rule constraint_keys)
  then show "\<exists>k'. QUBOMatrix_squash_key (Tuple k) = Inr k'" by (rule QUBOMatrix_short)
qed

lemma reduce_key_total: "\<exists>k' s'. reduce_key w k s = Inr (k', s')"
proof (induction w k s rule: reduce_key.induct)
  case (1 w k s)
  show ?case
  proof (cases "2 < length k")
    case False
    then show ?thesis by (simp add: reduce_key.simps [of w k s])
  next
    case True
    obtain x y z anc' red' where ch:
      "choose_reduction k (ancilla s) (reductions s) = ((x, y, z), anc', red')"
      by (metis prod_cases3)
    from iadd_constraint_total obtain Q' where
      Q': "iadd QUBOMatrix_squash_key (constraint_xy_eq_z x y z w) (qmatrix s) = Inr Q'" ..
    from "1.IH" [OF True ch [symmetric] refl refl refl Q']
    show ?thesis using True ch Q' by (simp add: reduce_key.simps [of w k s])
  qed
qed

lemma to_qubo_body_total:
  assumes "registry_inv n s" and "map_labels m kp = Inr mapped" and "length mapped \<noteq> 2"
  shows "\<exists>s'. to_qubo_body lam m (kp, v) s = Inr s'"
proof -
  have none: "map_of (reductions s) (sort mapped) = None"
  proof (rule ccontr)
    assume "map_of (reductions s) (sort mapped) \<noteq> None"
    then have "sort mapped \<in> fst ` set (reductions s)" by (simp add: map_of_eq_None_iff)
    moreover have "\<forall>k\<in>fst ` set (reductions s). \<exists>x y. k = [x, y] \<and> x \<le> y"
      using assms(1) unfolding registry_inv_def by blast
    ultimately obtain x y where "sort mapped = [x, y]" by blast
    then have "length (sort mapped) = 2" by simp
    then show False using assms(3) by simp
  qed
  from reduce_key_total obtain k s1 where
    r: "reduce_key (lam v) (sort mapped) s = Inr (k, s1)" by blast
  have "length k \<le> 2" using reduce_key_registry [OF r _ assms(1)] by simp
  then obtain k' where "QUBOMatrix_squash_key (Tuple k) = Inr k'"
    using QUBOMatrix_short by blast
  then show ?thesis using assms(2) none r by (simp add: to_qubo_body_def add_item_def)
qed

lemma map_labels_length:
  assumes "map_labels m kp = Inr mapped"
  shows "length mapped = length kp"
  using list_all2_lengthD [OF map_labels_list_all2 [OF assms]] by simp

text \<open>
  \<open>to_qubo\<close> returns for every \<open>PUBO\<close> that has no monomial of degree 2: only the branch
  for a term whose key is a registered pair raises.
\<close>

lemma to_qubo_run_total:
  assumes "PUBO_invariant P" and "\<And>kp v. (kp, v) \<in> set (items P) \<Longrightarrow> length kp \<noteq> 2"
  shows "\<exists>s. to_qubo_run P lam = Inr s"
  unfolding to_qubo_run_def
proof (rule for_each_total [where I = "registry_inv (num_binary_variables P)"])
  show "registry_inv (num_binary_variables P) (to_qubo_init P)" by (rule registry_inv_init)
next
  fix x :: "'a list \<times> rat" and s
  assume x: "x \<in> set (items P)" and reg: "registry_inv (num_binary_variables P) s"
  obtain kp v where xv: "x = (kp, v)" by (cases x)
  from PUBO_invariant_item [OF assms(1), of kp v] x obtain mapped where
    mapped: "map_labels (mapping P) kp = Inr mapped" by (auto simp: xv)
  have "length mapped \<noteq> 2" using assms(2) [of kp v] x map_labels_length [OF mapped]
    by (simp add: xv)
  from to_qubo_body_total [OF reg mapped this]
  obtain s' where s': "to_qubo_body (case lam of None \<Rightarrow> default_lam | Some f \<Rightarrow> f)
      (mapping P) (kp, v) s = Inr s'" by blast
  then show "\<exists>s'. to_qubo_body (case lam of None \<Rightarrow> default_lam | Some f \<Rightarrow> f) (mapping P) x s
      = Inr s' \<and> registry_inv (num_binary_variables P) s'"
    using to_qubo_body_registry [OF s' reg] by (auto simp: xv)
qed

end
